theory Spec2Isabelle
  imports Main "HOL-Library.Word" "HOL-Library.Multiset"
begin

section \<open>Data model of \<^verbatim>\<open>src/App.tsx\<close>\<close>

text \<open>
  A JavaScript string is a sequence of UTF-16 code units. A \<^verbatim>\<open>Participant\<close> is the
  interface \<^verbatim>\<open>{ id: string; name: string }\<close>; the field \<^verbatim>\<open>id\<close> is called \<open>ident\<close> here,
  since \<open>id\<close> is the identity function of HOL.
\<close>

type_synonym js_string = "16 word list"

record participant =
  ident :: js_string
  name :: js_string

datatype tab = Source | Draw | Group

text \<open>
  A running \<^verbatim>\<open>setInterval\<close> callback of \<^verbatim>\<open>startDraw\<close>: its local \<^verbatim>\<open>counter\<close> and the
  value of \<^verbatim>\<open>availableParticipants\<close> that the closure captured when the draw started.
\<close>

record timer =
  counter :: nat
  captured :: "participant list"

text \<open>
  The \<^verbatim>\<open>useState\<close> cells of the component \<^verbatim>\<open>App\<close>, together with the interval timers
  that are currently scheduled.
\<close>

record state =
  activeTab :: tab
  participants :: "participant list"
  inputText :: js_string
  autoDeduplicate :: bool
  drawHistory :: "participant list"
  isDrawing :: bool
  currentWinner :: "participant option"
  allowRepeat :: bool
  groupSize :: int
  groups :: "participant list list"
  timers :: "timer list"

definition initial :: state where
  "initial = \<lparr>activeTab = Source, participants = [], inputText = [], autoDeduplicate = True,
     drawHistory = [], isDrawing = False, currentWinner = None, allowRepeat = False,
     groupSize = 3, groups = [], timers = []\<rparr>"

section \<open>Strings: \<^verbatim>\<open>split('\n')\<close> and \<^verbatim>\<open>trim()\<close>\<close>

text \<open>
  \<^verbatim>\<open>String.prototype.trim\<close> removes the code units of ECMAScript's WhiteSpace and
  LineTerminator productions from both ends.
\<close>

definition isWhiteSpace :: "16 word \<Rightarrow> bool" where
  "isWhiteSpace c \<longleftrightarrow>
     c = 0x9 \<or> c = 0xA \<or> c = 0xB \<or> c = 0xC \<or> c = 0xD \<or> c = 0x20 \<or> c = 0xA0 \<or>
     c = 0x1680 \<or> (0x2000 \<le> c \<and> c \<le> 0x200A) \<or> c = 0x2028 \<or> c = 0x2029 \<or>
     c = 0x202F \<or> c = 0x205F \<or> c = 0x3000 \<or> c = 0xFEFF"

definition trim :: "js_string \<Rightarrow> js_string" where
  "trim s = rev (dropWhile isWhiteSpace (rev (dropWhile isWhiteSpace s)))"

text \<open>\<^verbatim>\<open>s.split('\n')\<close>: the pieces between line feeds; the empty string gives one empty piece.\<close>

fun split_nl :: "js_string \<Rightarrow> js_string list" where
  "split_nl [] = [[]]"
| "split_nl (c # cs) =
     (if c = 0xA then [] # split_nl cs
      else (case split_nl cs of [] \<Rightarrow> [[c]] | l # ls \<Rightarrow> (c # l) # ls))"

section \<open>Participant store\<close>

text \<open>
  The filter callback shared by \<^verbatim>\<open>handleAddFromText\<close> and \<^verbatim>\<open>handleFileUpload\<close>:
  \<^verbatim>\<open>if (existingNames.has(p.name)) return false; existingNames.add(p.name); return true;\<close>
  The mutable \<^verbatim>\<open>Set\<close> is threaded through the recursion.
\<close>

fun dedupe_filter :: "js_string set \<Rightarrow> participant list \<Rightarrow> participant list" where
  "dedupe_filter existingNames [] = []"
| "dedupe_filter existingNames (p # ps) =
     (if name p \<in> existingNames then dedupe_filter existingNames ps
      else p # dedupe_filter (insert (name p) existingNames) ps)"

text \<open>
  \<^verbatim>\<open>names.map(name => ({ id: Math.random().toString(36).substr(2, 9), name }))\<close>.
  The random source is the function \<open>rnd\<close>: \<open>rnd i\<close> is the string that the \<open>i\<close>-th
  evaluation of \<^verbatim>\<open>Math.random().toString(36).substr(2, 9)\<close> of this call yields. Every name
  gets its id before the duplicates are filtered out.
\<close>

definition new_participants :: "(nat \<Rightarrow> js_string) \<Rightarrow> js_string list \<Rightarrow> participant list" where
  "new_participants rnd names =
     map (\<lambda>i. \<lparr>ident = rnd i, name = names ! i\<rparr>) [0..<length names]"

text \<open>
  \<^verbatim>\<open>handleAddFromText\<close> runs on a click on the add button, in the closure of the current
  render: the \<^verbatim>\<open>participants\<close> and \<^verbatim>\<open>autoDeduplicate\<close> it reads are those of the state.
\<close>

definition handleAddFromText :: "(nat \<Rightarrow> js_string) \<Rightarrow> state \<Rightarrow> state" where
  "handleAddFromText rnd s =
     (let names = filter (\<lambda>n. n \<noteq> []) (map trim (split_nl (inputText s)));
          newParticipants = new_participants rnd names;
          newParticipants' =
            (if autoDeduplicate s
             then dedupe_filter (set (map name (participants s))) newParticipants
             else newParticipants)
      in s\<lparr>participants := participants s @ newParticipants', inputText := []\<rparr>)"

text \<open>
  The \<^verbatim>\<open>complete\<close> callback that \<^verbatim>\<open>handleFileUpload\<close> hands to the CSV parser. The callback
  runs after parsing, so the \<^verbatim>\<open>participants\<close> and \<^verbatim>\<open>autoDeduplicate\<close> it reads are the
  values its closure captured when the file was chosen (\<open>participants_c\<close>,
  \<open>autoDeduplicate_c\<close>), while \<^verbatim>\<open>setParticipants(prev => ...)\<close> appends to the list of the
  state at the time of the callback. \<open>data\<close> is \<^verbatim>\<open>results.data\<close>, the parsed rows.
\<close>

definition handleFileUpload_complete ::
  "participant list \<Rightarrow> bool \<Rightarrow> js_string list list \<Rightarrow> (nat \<Rightarrow> js_string) \<Rightarrow> state \<Rightarrow> state" where
  "handleFileUpload_complete participants_c autoDeduplicate_c data rnd s =
     (let names = filter (\<lambda>n. n \<noteq> []) (map trim (concat data));
          newParticipants = new_participants rnd names;
          newParticipants' =
            (if autoDeduplicate_c
             then dedupe_filter (set (map name participants_c)) newParticipants
             else newParticipants)
      in s\<lparr>participants := participants s @ newParticipants'\<rparr>)"

text \<open>
  The filter callback of \<^verbatim>\<open>deduplicate\<close>:
  \<^verbatim>\<open>const duplicate = seen.has(p.name); seen.add(p.name); return !duplicate;\<close>
\<close>

fun seen_filter :: "js_string set \<Rightarrow> participant list \<Rightarrow> participant list" where
  "seen_filter seen [] = []"
| "seen_filter seen (p # ps) =
     (let duplicate = name p \<in> seen; seen' = insert (name p) seen
      in if \<not> duplicate then p # seen_filter seen' ps else seen_filter seen' ps)"

definition deduplicate :: "state \<Rightarrow> state" where
  "deduplicate s = s\<lparr>participants := seen_filter {} (participants s)\<rparr>"

text \<open>The remove button of a row: \<^verbatim>\<open>setParticipants(prev => prev.filter(item => item.id !== p.id))\<close>.\<close>

definition removeParticipant :: "js_string \<Rightarrow> state \<Rightarrow> state" where
  "removeParticipant pid s =
     s\<lparr>participants := filter (\<lambda>item. ident item \<noteq> pid) (participants s)\<rparr>"

definition clearParticipants :: "state \<Rightarrow> state" where
  "clearParticipants s = s\<lparr>participants := [], drawHistory := [], groups := []\<rparr>"

section \<open>Draw engine\<close>

text \<open>
  The memoised \<^verbatim>\<open>availableParticipants\<close>: all participants when repeats are allowed,
  otherwise those for which \<^verbatim>\<open>drawHistory.find(h => h.id === p.id)\<close> finds nothing.
\<close>

definition availableParticipants :: "state \<Rightarrow> participant list" where
  "availableParticipants s =
     (if allowRepeat s then participants s
      else filter (\<lambda>p. List.find (\<lambda>h. ident h = ident p) (drawHistory s) = None) (participants s))"

text \<open>\<^verbatim>\<open>const steps = duration / interval\<close> with \<^verbatim>\<open>duration = 2000\<close> and \<^verbatim>\<open>interval = 50\<close>.\<close>

definition steps :: nat where
  "steps = 2000 div 50"

text \<open>
  \<^verbatim>\<open>startDraw\<close> returns at once when nobody is available. Otherwise it sets
  \<^verbatim>\<open>isDrawing\<close>, resets \<^verbatim>\<open>currentWinner\<close> to \<^verbatim>\<open>null\<close> and schedules an interval timer whose
  closure holds \<^verbatim>\<open>counter = 0\<close> and the list \<^verbatim>\<open>availableParticipants\<close> of this render.
  The handler is bound to the draw button only, whose \<^verbatim>\<open>disabled\<close> attribute holds the
  test of \<^verbatim>\<open>isDrawing\<close> (see \<open>fire\<close> below).
\<close>

definition startDraw :: "state \<Rightarrow> state" where
  "startDraw s =
     (if length (availableParticipants s) = 0 then s
      else s\<lparr>isDrawing := True, currentWinner := None,
             timers := timers s @ [\<lparr>counter = 0, captured = availableParticipants s\<rparr>]\<rparr>)"

text \<open>
  One run of the interval callback of the \<open>k\<close>-th scheduled timer. \<^verbatim>\<open>Math.random()\<close> lies
  in \<open>[0, 1)\<close>, so \<^verbatim>\<open>Math.floor(Math.random() * n)\<close> is an index below \<open>n\<close>; the model
  receives each draw as a natural number \<open>r\<close> and uses the index \<open>r mod n\<close>. \<open>r1\<close> is the
  draw of the flicker, \<open>r2\<close> the second draw, which only the last tick makes. The last tick
  (\<^verbatim>\<open>counter >= steps\<close>) clears the interval, commits the winner at the front of the
  history with \<^verbatim>\<open>setDrawHistory(prev => [finalWinner, ...prev])\<close> and resets \<^verbatim>\<open>isDrawing\<close>.
  A timer with an empty captured list is never scheduled (\<open>startDraw\<close> returns before);
  for such a timer the model leaves the state as it is.
\<close>

definition timer_tick :: "nat \<Rightarrow> nat \<Rightarrow> nat \<Rightarrow> state \<Rightarrow> state" where
  "timer_tick k r1 r2 s =
     (if k < length (timers s) then
        (let t = timers s ! k; avail = captured t; n = length avail in
         if n = 0 then s
         else
           (let randomIndex = r1 mod n;
                s1 = s\<lparr>currentWinner := Some (avail ! randomIndex)\<rparr>;
                counter' = counter t + 1
            in if counter' \<ge> steps then
                 (let finalWinner = avail ! (r2 mod n)
                  in s1\<lparr>timers := take k (timers s) @ drop (Suc k) (timers s),
                        currentWinner := Some finalWinner,
                        drawHistory := finalWinner # drawHistory s1,
                        isDrawing := False\<rparr>)
               else s1\<lparr>timers := (timers s)[k := t\<lparr>counter := counter'\<rparr>]\<rparr>))
      else s)"

text \<open>
  The state after \<open>i\<close> ticks of the first timer. \<open>rnd i\<close> are the two draws of tick \<open>i\<close>,
  and \<open>g i\<close> is whatever other handlers ran between tick \<open>i - 1\<close> and tick \<open>i\<close>.
\<close>

primrec ticks :: "nat \<Rightarrow> (nat \<Rightarrow> state \<Rightarrow> state) \<Rightarrow> (nat \<Rightarrow> nat \<times> nat) \<Rightarrow> state \<Rightarrow> state" where
  "ticks 0 g rnd s = s"
| "ticks (Suc i) g rnd s =
     timer_tick 0 (fst (rnd i)) (snd (rnd i)) (g i (ticks i g rnd s))"

text \<open>The \<^verbatim>\<open>Clear\<close> button of the history panel: \<^verbatim>\<open>setDrawHistory([])\<close>.\<close>

definition clearHistory :: "state \<Rightarrow> state" where
  "clearHistory s = s\<lparr>drawHistory := []\<rparr>"

section \<open>Grouping engine\<close>

text \<open>
  \<^verbatim>\<open>Array.prototype.slice(start, end)\<close> on integer arguments: a negative argument counts
  from the end, both are clamped to the array, and an empty range gives the empty array.
\<close>

definition js_slice :: "'a list \<Rightarrow> int \<Rightarrow> int \<Rightarrow> 'a list" where
  "js_slice a start stop =
     (let len = int (length a);
          k = (if start < 0 then max (len + start) 0 else min start len);
          final = (if stop < 0 then max (len + stop) 0 else min stop len)
      in take (nat (final - k)) (drop (nat k) a))"

text \<open>
  The loop \<^verbatim>\<open>for (let i = 0; i < shuffled.length; i += groupSize) newGroups.push(shuffled.slice(i, i + groupSize))\<close>.
  Nothing bounds the number of iterations, so the loop is a partial function: \<open>None\<close>
  stands for a loop that never exits.
\<close>

partial_function (option) grouping_loop ::
  "participant list \<Rightarrow> int \<Rightarrow> int \<Rightarrow> participant list list \<Rightarrow> participant list list option" where
  "grouping_loop shuffled gsize i newGroups =
     (if i < int (length shuffled)
      then grouping_loop shuffled gsize (i + gsize) (newGroups @ [js_slice shuffled i (i + gsize)])
      else Some newGroups)"

text \<open>
  \<^verbatim>\<open>handleGrouping\<close>. The argument \<open>srt\<close> stands for
  \<^verbatim>\<open>xs => [...xs].sort(() => Math.random() - 0.5)\<close> under the random draws of this call:
  the sorting algorithm belongs to the JavaScript engine, not to the repository. The
  result is \<open>None\<close> when the handler does not return.
\<close>

definition handleGrouping :: "(participant list \<Rightarrow> participant list) \<Rightarrow> state \<Rightarrow> state option" where
  "handleGrouping srt s =
     (if length (participants s) = 0 then Some s
      else map_option (\<lambda>newGroups. s\<lparr>groups := newGroups\<rparr>)
             (grouping_loop (srt (participants s)) (groupSize s) 0 []))"

text \<open>
  The group size input: \<^verbatim>\<open>setGroupSize(parseInt(e.target.value) || 1)\<close>. \<open>parsed\<close> is the
  result of \<^verbatim>\<open>parseInt\<close>, \<open>None\<close> for \<^verbatim>\<open>NaN\<close>; \<^verbatim>\<open>NaN\<close> and \<open>0\<close> are the falsy results.
\<close>

definition groupSize_onChange :: "int option \<Rightarrow> state \<Rightarrow> state" where
  "groupSize_onChange parsed s =
     s\<lparr>groupSize := (case parsed of None \<Rightarrow> 1 | Some n \<Rightarrow> if n = 0 then 1 else n)\<rparr>"

text \<open>
  An instance of \<open>srt\<close>: straight insertion sort, which engines have used for short
  arrays, run with the comparator \<^verbatim>\<open>() => Math.random() - 0.5\<close>. The comparator ignores its
  arguments; \<open>pos k\<close> says whether its \<open>k\<close>-th call returned a positive number, that is
  whether \<^verbatim>\<open>Math.random()\<close> exceeded \<open>0.5\<close>. \<open>insert_random\<close> is the inner loop
  \<^verbatim>\<open>for (j = i - 1; j >= from; j--) { tmp = a[j]; if (comparefn(tmp, element) > 0) a[j + 1] = tmp; else break; }\<close>
  on the sorted prefix held in reverse; it returns the new prefix and the number of
  comparator calls made so far.
\<close>

fun insert_random :: "(nat \<Rightarrow> bool) \<Rightarrow> nat \<Rightarrow> 'a \<Rightarrow> 'a list \<Rightarrow> 'a list \<times> nat" where
  "insert_random pos k element [] = ([element], k)"
| "insert_random pos k element (tmp # rest) =
     (if pos k
      then (case insert_random pos (Suc k) element rest of (r, k') \<Rightarrow> (tmp # r, k'))
      else (element # tmp # rest, Suc k))"

fun isort_random :: "(nat \<Rightarrow> bool) \<Rightarrow> nat \<Rightarrow> 'a list \<Rightarrow> 'a list \<Rightarrow> 'a list" where
  "isort_random pos k done_rev [] = rev done_rev"
| "isort_random pos k done_rev (element # rest) =
     (case insert_random pos k element done_rev of (r, k') \<Rightarrow> isort_random pos k' r rest)"

definition sort_random :: "(nat \<Rightarrow> bool) \<Rightarrow> 'a list \<Rightarrow> 'a list" where
  "sort_random pos a = isort_random pos 0 [] a"

section \<open>User interface events\<close>

text \<open>
  What can happen to the component: the \<^verbatim>\<open>onClick\<close> and \<^verbatim>\<open>onChange\<close> handlers of the
  JSX, the parser's \<^verbatim>\<open>complete\<close> callback and the ticks of the interval timers. The
  random draws and the values a closure captured travel with the event.
\<close>

datatype event =
    SetActiveTab tab
  | SetInputText js_string
  | ClickAdd "nat \<Rightarrow> js_string"
  | FileParsed "participant list" bool "js_string list list" "nat \<Rightarrow> js_string"
  | ToggleAutoDeduplicate
  | ClickDeduplicate
  | ClickClear
  | ClickRemove js_string
  | ClickDraw
  | TimerTick nat nat nat
  | ToggleAllowRepeat
  | ClickClearHistory
  | ChangeGroupSize "int option"
  | ClickGenerate "participant list \<Rightarrow> participant list"

text \<open>
  A button with a \<^verbatim>\<open>disabled\<close> attribute does not deliver clicks while the attribute holds:
  \<^verbatim>\<open>disabled={participants.length === 0}\<close> on the deduplicate, clear and generate buttons,
  \<^verbatim>\<open>disabled={isDrawing || availableParticipants.length === 0}\<close> on the draw button.
\<close>

fun fire :: "event \<Rightarrow> state \<Rightarrow> state option" where
  "fire (SetActiveTab t) s = Some (s\<lparr>activeTab := t\<rparr>)"
| "fire (SetInputText v) s = Some (s\<lparr>inputText := v\<rparr>)"
| "fire (ClickAdd rnd) s = Some (handleAddFromText rnd s)"
| "fire (FileParsed participants_c autoDeduplicate_c data rnd) s =
     Some (handleFileUpload_complete participants_c autoDeduplicate_c data rnd s)"
| "fire ToggleAutoDeduplicate s = Some (s\<lparr>autoDeduplicate := \<not> autoDeduplicate s\<rparr>)"
| "fire ClickDeduplicate s = Some (if length (participants s) = 0 then s else deduplicate s)"
| "fire ClickClear s = Some (if length (participants s) = 0 then s else clearParticipants s)"
| "fire (ClickRemove pid) s = Some (removeParticipant pid s)"
| "fire ClickDraw s =
     Some (if isDrawing s \<or> length (availableParticipants s) = 0 then s else startDraw s)"
| "fire (TimerTick k r1 r2) s = Some (timer_tick k r1 r2 s)"
| "fire ToggleAllowRepeat s = Some (s\<lparr>allowRepeat := \<not> allowRepeat s\<rparr>)"
| "fire ClickClearHistory s = Some (clearHistory s)"
| "fire (ChangeGroupSize parsed) s = Some (groupSize_onChange parsed s)"
| "fire (ClickGenerate srt) s =
     (if length (participants s) = 0 then Some s else handleGrouping srt s)"

fun run :: "event list \<Rightarrow> state \<Rightarrow> state option" where
  "run [] s = Some s"
| "run (e # es) s = (case fire e s of None \<Rightarrow> None | Some s' \<Rightarrow> run es s')"

section \<open>Predicates of the statements\<close>

text \<open>Every name is non-empty and trimmed.\<close>

definition names_ok :: "participant list \<Rightarrow> bool" where
  "names_ok ps = list_all (\<lambda>p. name p \<noteq> [] \<and> trim (name p) = name p) ps"

text \<open>
  The ids that an import draws for the names \<open>names\<close> are pairwise distinct and none of
  them is the id of a participant of \<open>ps\<close>.
\<close>

definition ids_fresh :: "(nat \<Rightarrow> js_string) \<Rightarrow> js_string list \<Rightarrow> participant list \<Rightarrow> bool" where
  "ids_fresh rnd names ps \<longleftrightarrow>
     distinct (map rnd [0..<length names]) \<and>
     set (map rnd [0..<length names]) \<inter> set (map ident ps) = {}"

fun fresh :: "event \<Rightarrow> state \<Rightarrow> bool" where
  "fresh (ClickAdd rnd) s =
     ids_fresh rnd (filter (\<lambda>n. n \<noteq> []) (map trim (split_nl (inputText s)))) (participants s)"
| "fresh (FileParsed participants_c autoDeduplicate_c data rnd) s =
     ids_fresh rnd (filter (\<lambda>n. n \<noteq> []) (map trim (concat data))) (participants s)"
| "fresh e s = True"

fun all_fresh :: "event list \<Rightarrow> state \<Rightarrow> bool" where
  "all_fresh [] s = True"
| "all_fresh (e # es) s =
     (fresh e s \<and> (case fire e s of None \<Rightarrow> True | Some s' \<Rightarrow> all_fresh es s'))"

text \<open>
  At most one timer is scheduled, one is scheduled exactly while \<^verbatim>\<open>isDrawing\<close> holds, and
  every scheduled timer captured a non-empty list.
\<close>

definition draw_inv :: "state \<Rightarrow> bool" where
  "draw_inv s \<longleftrightarrow> length (timers s) \<le> 1 \<and> (isDrawing s \<longleftrightarrow> timers s \<noteq> []) \<and>
     list_all (\<lambda>t. captured t \<noteq> []) (timers s)"

section \<open>Properties of the participant store\<close>

subsection \<open>Trimming and the duplicate filters\<close>

text \<open>Trimming a trimmed string changes nothing.\<close>

lemma trim_idem: "trim (trim s) = trim s"
proof -
  let ?P = isWhiteSpace
  let ?t = "dropWhile ?P s"
  let ?u = "rev (dropWhile ?P (rev ?t))"
  have u: "trim s = ?u" by (simp add: trim_def)
  have tail_ok: "dropWhile ?P (rev ?u) = rev ?u" by simp
  have front: "dropWhile ?P ?u = ?u"
  proof (cases "?u = []")
    case True
    show ?thesis by (simp only: True dropWhile.simps)
  next
    case False
    have split: "?t = ?u @ rev (takeWhile ?P (rev ?t))"
      by (metis rev_append rev_rev_ident takeWhile_dropWhile_id)
    with False have "hd ?u = hd ?t" by (metis hd_append2)
    moreover have "?t \<noteq> []"
    proof
      assume e: "?t = []"
      have "?u = []" by (simp only: e rev.simps dropWhile.simps)
      with False show False by contradiction
    qed
    then have "\<not> ?P (hd ?t)" by (rule hd_dropWhile)
    ultimately have "\<not> ?P (hd ?u)" by simp
    then show ?thesis by (simp add: dropWhile_eq_self_iff)
  qed
  have "trim ?u = rev (dropWhile ?P (rev (dropWhile ?P ?u)))" by (simp only: trim_def)
  also have "\<dots> = rev (dropWhile ?P (rev ?u))" by (simp only: front)
  also have "\<dots> = ?u" using tail_ok by simp
  finally show ?thesis by (simp only: u)
qed

lemma dedupe_filter_subset: "set (dedupe_filter E ps) \<subseteq> set ps"
  by (induction ps arbitrary: E) auto

lemma dedupe_filter_names: "name ` set (dedupe_filter E ps) = name ` set ps - E"
  by (induction ps arbitrary: E) auto

lemma dedupe_filter_distinct: "distinct (map name (dedupe_filter E ps))"
proof (induction ps arbitrary: E)
  case Nil
  show ?case by simp
next
  case (Cons p ps)
  have "name p \<notin> name ` set (dedupe_filter (insert (name p) E) ps)"
    by (simp add: dedupe_filter_names)
  with Cons show ?case by simp
qed

lemma seen_filter_eq: "seen_filter E ps = dedupe_filter E ps"
  by (induction ps arbitrary: E) (simp_all add: Let_def insert_absorb)

lemma dedupe_filter_index:
  "dedupe_filter E ps =
     map (\<lambda>i. ps ! i)
       (filter (\<lambda>i. name (ps ! i) \<notin> E \<and> (\<forall>j<i. name (ps ! j) \<noteq> name (ps ! i))) [0..<length ps])"
proof (induction ps arbitrary: E)
  case Nil
  show ?case by simp
next
  case (Cons p ps)
  let ?Q = "\<lambda>E i. name (ps ! i) \<notin> E \<and> (\<forall>j<i. name (ps ! j) \<noteq> name (ps ! i))"
  let ?P = "\<lambda>i. name ((p # ps) ! i) \<notin> E \<and> (\<forall>j<i. name ((p # ps) ! j) \<noteq> name ((p # ps) ! i))"
  have upt: "[0..<length (p # ps)] = 0 # map Suc [0..<length ps]"
    by (simp only: length_Cons upt_conv_Cons[OF zero_less_Suc] map_Suc_upt)
  have PS: "?P (Suc i) \<longleftrightarrow>
      name (ps ! i) \<notin> E \<and> name p \<noteq> name (ps ! i) \<and> (\<forall>j<i. name (ps ! j) \<noteq> name (ps ! i))" for i
    by (auto simp: less_Suc_eq_0_disj)
  have filt: "filter ?P [0..<length (p # ps)] =
      (if name p \<notin> E then [0] else []) @ map Suc (filter (\<lambda>i. ?P (Suc i)) [0..<length ps])"
    unfolding upt by (simp add: filter_map comp_def)
  have maps: "map (\<lambda>i. (p # ps) ! i) (map Suc is) = map (\<lambda>i. ps ! i) is" for "is"
    by simp
  show ?case
  proof (cases "name p \<in> E")
    case True
    have "filter (\<lambda>i. ?P (Suc i)) [0..<length ps] = filter (?Q E) [0..<length ps]"
    proof (intro filter_cong refl)
      fix i show "?P (Suc i) \<longleftrightarrow> ?Q E i" unfolding PS using True by auto
    qed
    with True show ?thesis
      unfolding filt by (simp add: Cons.IH[of E] del: nth_Cons_Suc upt_Suc)
  next
    case False
    have "filter (\<lambda>i. ?P (Suc i)) [0..<length ps] = filter (?Q (insert (name p) E)) [0..<length ps]"
    proof (intro filter_cong refl)
      fix i show "?P (Suc i) \<longleftrightarrow> ?Q (insert (name p) E) i" unfolding PS by auto
    qed
    with False show ?thesis
      unfolding filt by (simp add: Cons.IH[of "insert (name p) E"] del: upt_Suc)
  qed
qed

subsection \<open>Deduplication of the list\<close>

text \<open>
  Claim C8. \<open>deduplicate\<close> keeps exactly the participants at the positions whose name
  does not occur at a lower position, in their original order, and changes nothing else
  of the state. In the result every name occurs once, and the names of the result are
  the names of the input.
\<close>

theorem deduplicate_first_occurrences:
  "deduplicate s = s\<lparr>participants :=
      map (\<lambda>i. participants s ! i)
        (filter (\<lambda>i. \<forall>j<i. name (participants s ! j) \<noteq> name (participants s ! i))
           [0..<length (participants s)])\<rparr> \<and>
   distinct (map name (participants (deduplicate s))) \<and>
   set (map name (participants (deduplicate s))) = set (map name (participants s))"
proof (intro conjI)
  show "deduplicate s = s\<lparr>participants :=
      map (\<lambda>i. participants s ! i)
        (filter (\<lambda>i. \<forall>j<i. name (participants s ! j) \<noteq> name (participants s ! i))
           [0..<length (participants s)])\<rparr>"
    by (simp add: deduplicate_def seen_filter_eq dedupe_filter_index[of "{}"])
  show "distinct (map name (participants (deduplicate s)))"
    by (simp add: deduplicate_def seen_filter_eq dedupe_filter_distinct)
  show "set (map name (participants (deduplicate s))) = set (map name (participants s))"
    by (simp add: deduplicate_def seen_filter_eq dedupe_filter_names)
qed

text \<open>
  Claim C8 on the list Al, Bo, Al, Bo: the positions 0 and 1 are kept.
\<close>

theorem deduplicate_first_occurrences_witness:
  "(let a1 = \<lparr>ident = [1], name = [0x41, 0x6C]\<rparr>; b = \<lparr>ident = [2], name = [0x42, 0x6F]\<rparr>;
        a2 = \<lparr>ident = [3], name = [0x41, 0x6C]\<rparr>;
        s = initial\<lparr>participants := [a1, b, a2, b]\<rparr>
    in deduplicate s = s\<lparr>participants := [a1, b]\<rparr> \<and>
       filter (\<lambda>i. \<forall>j<i. name (participants s ! j) \<noteq> name (participants s ! i))
           [0..<length (participants s)] = [0, 1] \<and>
       distinct (map name (participants (deduplicate s))))"
proof -
  let ?a1 = "\<lparr>ident = [1::16 word], name = [0x41, 0x6C::16 word]\<rparr>"
  let ?b = "\<lparr>ident = [2::16 word], name = [0x42, 0x6F::16 word]\<rparr>"
  let ?a2 = "\<lparr>ident = [3::16 word], name = [0x41, 0x6C::16 word]\<rparr>"
  let ?s = "initial\<lparr>participants := [?a1, ?b, ?a2, ?b]\<rparr>"
  have ix: "filter (\<lambda>i. \<forall>j<i. name (participants ?s ! j) \<noteq> name (participants ?s ! i))
           [0..<length (participants ?s)] = [0, 1]"
    by (simp add: upt_conv_Cons All_less_Suc numeral_eq_Suc del: upt_Suc)
  from deduplicate_first_occurrences[of ?s]
  have d: "deduplicate ?s = ?s\<lparr>participants := map (\<lambda>i. participants ?s ! i) [0, 1]\<rparr>"
    and dn: "distinct (map name (participants (deduplicate ?s)))"
    unfolding ix by blast+
  from d have "deduplicate ?s = ?s\<lparr>participants := [?a1, ?b]\<rparr>" by simp
  with ix dn show ?thesis unfolding Let_def by (intro conjI)
qed

subsection \<open>Adding names from the text area\<close>

lemma length_new_participants: "length (new_participants rnd names) = length names"
  by (simp add: new_participants_def)

lemma new_participants_nth:
  "i < length names \<Longrightarrow> new_participants rnd names ! i = \<lparr>ident = rnd i, name = names ! i\<rparr>"
  by (simp add: new_participants_def)

lemma new_participants_names: "map name (new_participants rnd names) = names"
  by (simp add: new_participants_def comp_def map_nth)

lemma dedupe_filter_new_participants:
  "dedupe_filter E (new_participants rnd names) =
     map (\<lambda>i. \<lparr>ident = rnd i, name = names ! i\<rparr>)
       (filter (\<lambda>i. names ! i \<notin> E \<and> (\<forall>j<i. names ! j \<noteq> names ! i)) [0..<length names])"
proof -
  let ?ps = "new_participants rnd names"
  have f: "filter (\<lambda>i. name (?ps ! i) \<notin> E \<and> (\<forall>j<i. name (?ps ! j) \<noteq> name (?ps ! i))) [0..<length ?ps]
      = filter (\<lambda>i. names ! i \<notin> E \<and> (\<forall>j<i. names ! j \<noteq> names ! i)) [0..<length names]"
  proof (rule filter_cong)
    show "[0..<length ?ps] = [0..<length names]" by (simp add: length_new_participants)
  next
    fix i assume "i \<in> set [0..<length names]"
    then have i: "i < length names" by simp
    then have "\<And>j. j < i \<Longrightarrow> name (?ps ! j) = names ! j"
      by (simp add: new_participants_nth)
    with i show "(name (?ps ! i) \<notin> E \<and> (\<forall>j<i. name (?ps ! j) \<noteq> name (?ps ! i))) =
        (names ! i \<notin> E \<and> (\<forall>j<i. names ! j \<noteq> names ! i))"
      by (simp add: new_participants_nth)
  qed
  have "dedupe_filter E ?ps =
      map (\<lambda>i. ?ps ! i) (filter (\<lambda>i. names ! i \<notin> E \<and> (\<forall>j<i. names ! j \<noteq> names ! i)) [0..<length names])"
    by (simp only: dedupe_filter_index[of E ?ps] f)
  also have "\<dots> = map (\<lambda>i. \<lparr>ident = rnd i, name = names ! i\<rparr>)
       (filter (\<lambda>i. names ! i \<notin> E \<and> (\<forall>j<i. names ! j \<noteq> names ! i)) [0..<length names])"
    by (rule map_cong) (simp_all add: new_participants_nth)
  finally show ?thesis .
qed

lemma trimmed_lines:
  "n \<in> set (filter (\<lambda>n. n \<noteq> []) (map trim ls)) \<Longrightarrow> n \<noteq> [] \<and> trim n = n"
  by (auto simp: trim_idem)

text \<open>
  Claim C7. With \<^verbatim>\<open>autoDeduplicate\<close> on, \<open>handleAddFromText\<close> appends to the end of the
  list, in input order, one participant for each position \<open>i\<close> of the trimmed non-blank
  lines whose name is not a name of the store and does not occur at a lower position.
  So the added names are pairwise distinct, none was in the store before, each is
  non-empty and trimmed, and they are exactly the names of the input that the store
  lacked. On empty input the state does not change.
\<close>

theorem handleAddFromText_dedupe:
  assumes dedupe: "autoDeduplicate s"
  shows "(let names = filter (\<lambda>n. n \<noteq> []) (map trim (split_nl (inputText s)));
              old = map name (participants s);
              kept = filter (\<lambda>i. names ! i \<notin> set old \<and> (\<forall>j<i. names ! j \<noteq> names ! i))
                       [0..<length names];
              added = map (\<lambda>i. \<lparr>ident = rnd i, name = names ! i\<rparr>) kept
          in handleAddFromText rnd s = s\<lparr>participants := participants s @ added, inputText := []\<rparr> \<and>
             distinct (map name added) \<and>
             set (map name added) \<inter> set old = {} \<and>
             set (map name added) = set names - set old \<and>
             (\<forall>p \<in> set added. name p \<noteq> [] \<and> trim (name p) = name p) \<and>
             (inputText s = [] \<longrightarrow> handleAddFromText rnd s = s))"
proof -
  define names where "names = filter (\<lambda>n. n \<noteq> []) (map trim (split_nl (inputText s)))"
  define old where "old = map name (participants s)"
  define added where "added = map (\<lambda>i. \<lparr>ident = rnd i, name = names ! i\<rparr>)
      (filter (\<lambda>i. names ! i \<notin> set old \<and> (\<forall>j<i. names ! j \<noteq> names ! i)) [0..<length names])"
  have a: "added = dedupe_filter (set old) (new_participants rnd names)"
    by (simp only: added_def dedupe_filter_new_participants)
  have h: "handleAddFromText rnd s = s\<lparr>participants := participants s @ added, inputText := []\<rparr>"
    using dedupe by (simp add: handleAddFromText_def Let_def a names_def old_def)
  have d: "distinct (map name added)" by (simp only: a dedupe_filter_distinct)
  have n: "set (map name added) = set names - set old"
  proof -
    have "set (map name added) = name ` set (new_participants rnd names) - set old"
      by (simp only: a set_map dedupe_filter_names)
    also have "name ` set (new_participants rnd names) = set (map name (new_participants rnd names))"
      by simp
    finally show ?thesis by (simp only: new_participants_names)
  qed
  then have i: "set (map name added) \<inter> set old = {}" by auto
  have t: "\<forall>p \<in> set added. name p \<noteq> [] \<and> trim (name p) = name p"
  proof
    fix p assume "p \<in> set added"
    then have "name p \<in> set (map name added)" by simp
    with n have "name p \<in> set names" by simp
    then show "name p \<noteq> [] \<and> trim (name p) = name p"
      unfolding names_def by (rule trimmed_lines)
  qed
  have e: "inputText s = [] \<longrightarrow> handleAddFromText rnd s = s"
  proof
    assume em: "inputText s = []"
    then have "names = []" by (simp add: names_def trim_def)
    then have "added = []" by (simp add: added_def)
    with h em show "handleAddFromText rnd s = s" by simp
  qed
  from h d i n t e show ?thesis
    unfolding Let_def names_def[symmetric] old_def[symmetric] added_def[symmetric]
    by (intro conjI)
qed

text \<open>
  Claim C7 on the store with one participant A and the input lines
  A, B (with blanks around it), an empty line, B and C: B and C are added once each.
\<close>

theorem handleAddFromText_dedupe_witness:
  "(let s = initial\<lparr>participants := [\<lparr>ident = [0x7A], name = [0x41]\<rparr>],
              inputText := [0x41, 0xA, 0x20, 0x42, 0x20, 0xA, 0xA, 0x42, 0xA, 0x43]\<rparr>;
        rnd = (\<lambda>i. [of_nat i])
    in autoDeduplicate s \<and>
       filter (\<lambda>n. n \<noteq> []) (map trim (split_nl (inputText s))) = [[0x41], [0x42], [0x42], [0x43]] \<and>
       handleAddFromText rnd s =
         s\<lparr>participants := [\<lparr>ident = [0x7A], name = [0x41]\<rparr>, \<lparr>ident = [1], name = [0x42]\<rparr>,
                            \<lparr>ident = [3], name = [0x43]\<rparr>],
           inputText := []\<rparr>)"
proof -
  let ?s = "initial\<lparr>participants := [\<lparr>ident = [0x7A], name = [0x41]\<rparr>],
              inputText := [0x41, 0xA, 0x20, 0x42, 0x20, 0xA, 0xA, 0x42, 0xA, 0x43]\<rparr>"
  let ?rnd = "(\<lambda>i. [of_nat i]) :: nat \<Rightarrow> js_string"
  have h: "autoDeduplicate ?s" by (simp add: initial_def)
  have names: "filter (\<lambda>n. n \<noteq> []) (map trim (split_nl (inputText ?s))) = [[0x41], [0x42], [0x42], [0x43]]"
    by (simp add: trim_def isWhiteSpace_def)
  have kept: "filter (\<lambda>i. [[0x41], [0x42], [0x42], [0x43::16 word]] ! i \<notin> set (map name (participants ?s)) \<and>
        (\<forall>j<i. [[0x41], [0x42], [0x42], [0x43::16 word]] ! j \<noteq> [[0x41], [0x42], [0x42], [0x43]] ! i))
       [0..<length [[0x41], [0x42], [0x42], [0x43::16 word]]] = [1, 3]"
    by (simp add: upt_conv_Cons All_less_Suc numeral_eq_Suc del: upt_Suc)
  from handleAddFromText_dedupe[OF h, of ?rnd]
  have "handleAddFromText ?rnd ?s =
     ?s\<lparr>participants := participants ?s @ map (\<lambda>i. \<lparr>ident = ?rnd i, name = [[0x41], [0x42], [0x42], [0x43]] ! i\<rparr>) [1, 3],
        inputText := []\<rparr>"
    unfolding Let_def names kept by (rule conjunct1)
  then have "handleAddFromText ?rnd ?s =
         ?s\<lparr>participants := [\<lparr>ident = [0x7A], name = [0x41]\<rparr>, \<lparr>ident = [1], name = [0x42]\<rparr>,
                            \<lparr>ident = [3], name = [0x43]\<rparr>],
           inputText := []\<rparr>" by simp
  with h names show ?thesis unfolding Let_def by (intro conjI)
qed

subsection \<open>The invariant of the participant list\<close>

lemma new_participants_idents: "map ident (new_participants rnd names) = map rnd [0..<length names]"
  by (simp add: new_participants_def comp_def)

lemma dedupe_filter_distinct_map:
  "distinct (map f ps) \<Longrightarrow> distinct (map f (dedupe_filter E ps))"
proof (induction ps arbitrary: E)
  case Nil
  show ?case by simp
next
  case (Cons p ps)
  have "f ` set (dedupe_filter (insert (name p) E) ps) \<subseteq> f ` set ps"
    using dedupe_filter_subset by blast
  with Cons show ?case by auto
qed

lemma names_ok_append: "names_ok (xs @ ys) \<longleftrightarrow> names_ok xs \<and> names_ok ys"
  by (simp add: names_ok_def)

lemma names_ok_subset: "names_ok ps \<Longrightarrow> set qs \<subseteq> set ps \<Longrightarrow> names_ok qs"
  by (auto simp: names_ok_def list_all_iff)

lemma names_ok_new:
  "names_ok (new_participants rnd (filter (\<lambda>n. n \<noteq> []) (map trim ls)))"
proof -
  let ?names = "filter (\<lambda>n. n \<noteq> []) (map trim ls)"
  have "\<forall>p \<in> set (new_participants rnd ?names). name p \<noteq> [] \<and> trim (name p) = name p"
  proof
    fix p assume "p \<in> set (new_participants rnd ?names)"
    then have "name p \<in> set (map name (new_participants rnd ?names))" by simp
    then have "name p \<in> set ?names" by (simp only: new_participants_names)
    then show "name p \<noteq> [] \<and> trim (name p) = name p" by (rule trimmed_lines)
  qed
  then show ?thesis by (simp add: names_ok_def list_all_iff)
qed

lemma names_ok_added:
  "names_ok (if d then dedupe_filter E (new_participants rnd (filter (\<lambda>n. n \<noteq> []) (map trim ls)))
             else new_participants rnd (filter (\<lambda>n. n \<noteq> []) (map trim ls)))"
  using names_ok_new[of rnd ls] names_ok_subset[OF _ dedupe_filter_subset] by simp

lemma handleGrouping_participants:
  "handleGrouping srt s = Some s' \<Longrightarrow> participants s' = participants s"
  by (auto simp: handleGrouping_def split: if_splits)

lemma timer_tick_participants: "participants (timer_tick k r1 r2 s) = participants s"
  by (simp add: timer_tick_def Let_def)

lemma startDraw_participants: "participants (startDraw s) = participants s"
  by (simp add: startDraw_def)

lemma fire_names_ok:
  assumes f: "fire e s = Some s'" and ok: "names_ok (participants s)"
  shows "names_ok (participants s')"
proof (cases e)
  case (ClickAdd rnd)
  with f have "participants s' = participants s @
      (if autoDeduplicate s
       then dedupe_filter (set (map name (participants s)))
              (new_participants rnd (filter (\<lambda>n. n \<noteq> []) (map trim (split_nl (inputText s)))))
       else new_participants rnd (filter (\<lambda>n. n \<noteq> []) (map trim (split_nl (inputText s)))))"
    by (auto simp: handleAddFromText_def Let_def)
  then show ?thesis using ok names_ok_added by (simp add: names_ok_append)
next
  case (FileParsed pc ac data rnd)
  with f have "participants s' = participants s @
      (if ac
       then dedupe_filter (set (map name pc))
              (new_participants rnd (filter (\<lambda>n. n \<noteq> []) (map trim (concat data))))
       else new_participants rnd (filter (\<lambda>n. n \<noteq> []) (map trim (concat data))))"
    by (auto simp: handleFileUpload_complete_def Let_def)
  then show ?thesis using ok names_ok_added by (simp add: names_ok_append)
next
  case ClickDeduplicate
  with f have "set (participants s') \<subseteq> set (participants s)"
    using dedupe_filter_subset[of "{}" "participants s"]
    by (auto simp: deduplicate_def seen_filter_eq split: if_splits)
  with ok show ?thesis by (rule names_ok_subset)
next
  case (ClickRemove pid)
  with f have "set (participants s') \<subseteq> set (participants s)"
    by (auto simp: removeParticipant_def)
  with ok show ?thesis by (rule names_ok_subset)
next
  case ClickClear
  with f ok show ?thesis by (auto simp: clearParticipants_def names_ok_def split: if_splits)
next
  case ClickDraw
  with f ok show ?thesis by (auto simp: startDraw_participants split: if_splits)
next
  case (TimerTick k r1 r2)
  with f ok show ?thesis by (auto simp: timer_tick_participants)
next
  case (ClickGenerate srt)
  with f ok show ?thesis by (auto dest: handleGrouping_participants split: if_splits)
qed (use f ok in \<open>auto simp: clearHistory_def groupSize_onChange_def\<close>)

lemma distinct_added:
  assumes d: "distinct (map ident ps)" and fr: "ids_fresh rnd names ps"
  shows "distinct (map ident (ps @ (if c then dedupe_filter E (new_participants rnd names)
                                     else new_participants rnd names)))"
proof -
  let ?new = "new_participants rnd names"
  let ?add = "if c then dedupe_filter E ?new else ?new"
  have dn: "distinct (map ident ?new)"
    using fr by (simp only: new_participants_idents ids_fresh_def)
  then have da: "distinct (map ident ?add)" by (simp add: dedupe_filter_distinct_map)
  have "set ?add \<subseteq> set ?new" using dedupe_filter_subset by simp
  then have "set (map ident ?add) \<subseteq> set (map ident ?new)" by auto
  moreover have "set (map ident ?new) \<inter> set (map ident ps) = {}"
    using fr by (simp only: new_participants_idents ids_fresh_def)
  ultimately have "set (map ident ps) \<inter> set (map ident ?add) = {}" by blast
  with d da show ?thesis by simp
qed

lemma dedupe_filter_distinct_idents:
  "distinct (map ident ps) \<Longrightarrow> distinct (map ident (dedupe_filter E ps))"
  by (rule dedupe_filter_distinct_map)

lemma fire_distinct:
  assumes f: "fire e s = Some s'" and d: "distinct (map ident (participants s))"
    and fr: "fresh e s"
  shows "distinct (map ident (participants s'))"
proof (cases e)
  case (ClickAdd rnd)
  with f have "participants s' = participants s @
      (if autoDeduplicate s
       then dedupe_filter (set (map name (participants s)))
              (new_participants rnd (filter (\<lambda>n. n \<noteq> []) (map trim (split_nl (inputText s)))))
       else new_participants rnd (filter (\<lambda>n. n \<noteq> []) (map trim (split_nl (inputText s)))))"
    by (auto simp: handleAddFromText_def Let_def)
  moreover from fr ClickAdd have
    "ids_fresh rnd (filter (\<lambda>n. n \<noteq> []) (map trim (split_nl (inputText s)))) (participants s)" by simp
  ultimately show ?thesis using distinct_added[OF d] by simp
next
  case (FileParsed pc ac data rnd)
  with f have "participants s' = participants s @
      (if ac
       then dedupe_filter (set (map name pc))
              (new_participants rnd (filter (\<lambda>n. n \<noteq> []) (map trim (concat data))))
       else new_participants rnd (filter (\<lambda>n. n \<noteq> []) (map trim (concat data))))"
    by (auto simp: handleFileUpload_complete_def Let_def)
  moreover from fr FileParsed have
    "ids_fresh rnd (filter (\<lambda>n. n \<noteq> []) (map trim (concat data))) (participants s)" by simp
  ultimately show ?thesis using distinct_added[OF d] by simp
next
  case ClickDeduplicate
  with f d show ?thesis
    by (auto simp: deduplicate_def seen_filter_eq dedupe_filter_distinct_idents split: if_splits)
next
  case (ClickRemove pid)
  with f d show ?thesis by (auto simp: removeParticipant_def distinct_map_filter)
next
  case ClickClear
  with f d show ?thesis by (auto simp: clearParticipants_def split: if_splits)
next
  case ClickDraw
  with f d show ?thesis by (auto simp: startDraw_participants split: if_splits)
next
  case (TimerTick k r1 r2)
  with f d show ?thesis by (auto simp: timer_tick_participants)
next
  case (ClickGenerate srt)
  with f d show ?thesis by (auto dest: handleGrouping_participants split: if_splits)
qed (use f d in \<open>auto simp: clearHistory_def groupSize_onChange_def\<close>)

lemma run_names_ok:
  "run es s = Some s' \<Longrightarrow> names_ok (participants s) \<Longrightarrow> names_ok (participants s')"
proof (induction es arbitrary: s)
  case Nil
  then show ?case by simp
next
  case (Cons e es)
  from Cons.prems(1) obtain s1 where s1: "fire e s = Some s1" "run es s1 = Some s'"
    by (auto split: option.splits)
  from Cons.IH[OF s1(2) fire_names_ok[OF s1(1) Cons.prems(2)]] show ?case .
qed

lemma run_distinct:
  "run es s = Some s' \<Longrightarrow> distinct (map ident (participants s)) \<Longrightarrow> all_fresh es s \<Longrightarrow>
   distinct (map ident (participants s'))"
proof (induction es arbitrary: s)
  case Nil
  then show ?case by simp
next
  case (Cons e es)
  from Cons.prems(1) obtain s1 where s1: "fire e s = Some s1" "run es s1 = Some s'"
    by (auto split: option.splits)
  from Cons.prems(3) s1(1) have fr: "fresh e s" "all_fresh es s1" by simp_all
  from Cons.IH[OF s1(2) fire_distinct[OF s1(1) Cons.prems(2) fr(1)] fr(2)] show ?case .
qed

text \<open>
  Claim C4 as stated (no two elements ever share an id) fails: the ids are random
  strings, \<^verbatim>\<open>Math.random().toString(36).substr(2, 9)\<close>, and nothing compares them. When
  two draws of one import give the same string (here both give \<^verbatim>\<open>"i"\<close>, the string for
  \<^verbatim>\<open>Math.random() = 0.5\<close>), the list holds two elements with one id.
\<close>

theorem duplicate_ids_counterexample:
  "(let s = handleAddFromText (\<lambda>i. [0x69]) (initial\<lparr>inputText := [0x41, 0xA, 0x42]\<rparr>)
    in participants s = [\<lparr>ident = [0x69], name = [0x41]\<rparr>, \<lparr>ident = [0x69], name = [0x42]\<rparr>] \<and>
       \<not> distinct (map ident (participants s)))"
  by (simp add: Let_def handleAddFromText_def new_participants_def initial_def trim_def isWhiteSpace_def
      upt_conv_Cons del: upt_Suc)

text \<open>
  Claim C4, amended. After any sequence of events (among them adding from lines, adding
  from rows, deduplicating, removing and clearing) that the handlers return from, every
  element of the list has a non-empty trimmed name. The ids stay pairwise distinct as
  long as every import draws ids that are distinct from each other and from the ids
  already in the list.
\<close>

theorem participant_list_invariant:
  assumes "run es s = Some s'" and "names_ok (participants s)"
  shows "names_ok (participants s') \<and>
         (distinct (map ident (participants s)) \<and> all_fresh es s \<longrightarrow>
            distinct (map ident (participants s')))"
  using assms run_names_ok run_distinct by blast


text \<open>
  Claim C4 (amended) on a run that adds two lines, imports a row, deduplicates and
  removes one participant.
\<close>

theorem participant_list_invariant_witness:
  "(let es = [SetInputText [0x41, 0xA, 0x42], ClickAdd (\<lambda>i. [of_nat i + 1]),
              FileParsed [] True [[[0x20, 0x43], [0x41, 0x20]]] (\<lambda>i. [of_nat i + 0x10]),
              ClickDeduplicate, ClickRemove [2]];
        s' = initial\<lparr>participants := [\<lparr>ident = [1], name = [0x41]\<rparr>, \<lparr>ident = [0x10], name = [0x43]\<rparr>]\<rparr>
    in run es initial = Some s' \<and> names_ok (participants initial) \<and>
       distinct (map ident (participants initial)) \<and> all_fresh es initial \<and>
       names_ok (participants s') \<and> distinct (map ident (participants s')))"
proof -
  let ?es = "[SetInputText [0x41, 0xA, 0x42], ClickAdd (\<lambda>i. [of_nat i + 1]),
              FileParsed [] True [[[0x20, 0x43], [0x41, 0x20]]] (\<lambda>i. [of_nat i + 0x10]),
              ClickDeduplicate, ClickRemove [2]]"
  let ?s' = "initial\<lparr>participants := [\<lparr>ident = [1], name = [0x41]\<rparr>, \<lparr>ident = [0x10], name = [0x43]\<rparr>]\<rparr>"
  have r: "run ?es initial = Some ?s'"
    by (simp add: initial_def handleAddFromText_def handleFileUpload_complete_def new_participants_def
        deduplicate_def removeParticipant_def trim_def isWhiteSpace_def Let_def
        upt_conv_Cons del: upt_Suc)
  have n: "names_ok (participants initial)" by (simp add: names_ok_def initial_def)
  have d: "distinct (map ident (participants initial))" by (simp add: initial_def)
  have f: "all_fresh ?es initial"
    by (simp add: initial_def handleAddFromText_def handleFileUpload_complete_def new_participants_def
        deduplicate_def removeParticipant_def trim_def isWhiteSpace_def Let_def ids_fresh_def
        upt_conv_Cons del: upt_Suc)
  from participant_list_invariant[OF r n] d f
  have "names_ok (participants ?s')" "distinct (map ident (participants ?s'))" by blast+
  with r n d f show ?thesis unfolding Let_def by (intro conjI)
qed

section \<open>Properties of the draw engine\<close>

subsection \<open>A draw that runs to its last tick\<close>

lemma steps_eq: "steps = 40"
  by (simp add: steps_def)

lemma ticks_running:
  assumes t0: "timers s = [\<lparr>counter = 0, captured = A\<rparr>]" and A: "A \<noteq> []"
    and frame: "\<And>i st. timers (g i st) = timers st \<and> drawHistory (g i st) = drawHistory st"
  shows "i < steps \<Longrightarrow>
           timers (ticks i g rnd s) = [\<lparr>counter = i, captured = A\<rparr>] \<and>
           drawHistory (ticks i g rnd s) = drawHistory s"
proof (induction i)
  case 0
  then show ?case using t0 by simp
next
  case (Suc i)
  then have IH: "timers (ticks i g rnd s) = [\<lparr>counter = i, captured = A\<rparr>]"
      "drawHistory (ticks i g rnd s) = drawHistory s" by simp_all
  let ?st = "g i (ticks i g rnd s)"
  have tm: "timers ?st = [\<lparr>counter = i, captured = A\<rparr>]" using frame IH(1) by simp
  have dh: "drawHistory ?st = drawHistory s" using frame IH(2) by simp
  from Suc.prems have "\<not> steps \<le> Suc i" by simp
  with tm dh A show ?case
    by (simp add: timer_tick_def Let_def)
qed

lemma ticks_final:
  assumes t0: "timers s = [\<lparr>counter = 0, captured = A\<rparr>]" and A: "A \<noteq> []"
    and frame: "\<And>i st. timers (g i st) = timers st \<and> drawHistory (g i st) = drawHistory st"
  shows "\<exists>w. w \<in> set A \<and> drawHistory (ticks steps g rnd s) = w # drawHistory s \<and>
           currentWinner (ticks steps g rnd s) = Some w \<and>
           \<not> isDrawing (ticks steps g rnd s) \<and> timers (ticks steps g rnd s) = []"
proof -
  obtain j where j: "steps = Suc j" by (simp add: steps_eq numeral_eq_Suc)
  then have "j < steps" by simp
  from ticks_running[OF t0 A frame this, where rnd = rnd]
  have IH: "timers (ticks j g rnd s) = [\<lparr>counter = j, captured = A\<rparr>]"
      "drawHistory (ticks j g rnd s) = drawHistory s" by simp_all
  let ?st = "g j (ticks j g rnd s)"
  have tm: "timers ?st = [\<lparr>counter = j, captured = A\<rparr>]" using frame IH(1) by simp
  have dh: "drawHistory ?st = drawHistory s" using frame IH(2) by simp
  have ge: "steps \<le> Suc j" using j by simp
  let ?w = "A ! (snd (rnd j) mod length A)"
  have w: "?w \<in> set A" using A by simp
  have "drawHistory (ticks (Suc j) g rnd s) = ?w # drawHistory s \<and>
        currentWinner (ticks (Suc j) g rnd s) = Some ?w \<and>
        \<not> isDrawing (ticks (Suc j) g rnd s) \<and> timers (ticks (Suc j) g rnd s) = []"
    using tm dh A ge by (simp add: timer_tick_def Let_def)
  with w show ?thesis unfolding j by blast
qed


text \<open>
  Claim C5. Let the eligible set be non-empty and no timer be scheduled when
  \<open>startDraw\<close> is called, and let the timer then tick \<open>steps\<close> = 40 times, with any
  handlers \<open>g\<close> running in between that leave the timers and the history alone
  (participants may be added or removed, the repeat policy toggled). Then the history
  is the old history with one new entry \<open>w\<close> at its head, its length has grown by
  exactly one, and \<open>w\<close> is a member of the eligible set as it was when the draw
  started. \<open>w\<close> is displayed, the draw is over and no timer is left; before the last
  tick the history is the old one.
\<close>

theorem startDraw_completes:
  assumes el: "availableParticipants s \<noteq> []" and idle: "timers s = []"
    and frame: "\<forall>i st. timers (g i st) = timers st \<and> drawHistory (g i st) = drawHistory st"
  shows "\<exists>w. drawHistory (ticks steps g rnd (startDraw s)) = w # drawHistory s \<and>
           length (drawHistory (ticks steps g rnd (startDraw s))) = length (drawHistory s) + 1 \<and>
           w \<in> set (availableParticipants s) \<and>
           currentWinner (ticks steps g rnd (startDraw s)) = Some w \<and>
           \<not> isDrawing (ticks steps g rnd (startDraw s)) \<and>
           timers (ticks steps g rnd (startDraw s)) = [] \<and>
           (\<forall>i < steps. drawHistory (ticks i g rnd (startDraw s)) = drawHistory s)"
proof -
  let ?A = "availableParticipants s"
  let ?fin = "ticks steps g rnd (startDraw s)"
  have t0: "timers (startDraw s) = [\<lparr>counter = 0, captured = ?A\<rparr>]"
    using el idle by (simp add: startDraw_def)
  have h0: "drawHistory (startDraw s) = drawHistory s"
    by (simp add: startDraw_def)
  have fr: "\<And>i st. timers (g i st) = timers st \<and> drawHistory (g i st) = drawHistory st"
    using frame by blast
  from ticks_final[where s = "startDraw s" and A = ?A and g = g and rnd = rnd, OF t0 el fr]
  obtain w where w: "w \<in> set ?A"
    and h: "drawHistory ?fin = w # drawHistory (startDraw s)"
    and c: "currentWinner ?fin = Some w"
    and d: "\<not> isDrawing ?fin"
    and t: "timers ?fin = []"
    by (elim exE conjE)
  have h': "drawHistory ?fin = w # drawHistory s" using h h0 by simp
  have len: "length (drawHistory ?fin) = length (drawHistory s) + 1"
    by (simp only: h' list.size length_Cons One_nat_def add_Suc_right add_0_right)
  have mid: "\<forall>i < steps. drawHistory (ticks i g rnd (startDraw s)) = drawHistory s"
  proof (intro allI impI)
    fix i assume "i < steps"
    from ticks_running[OF t0 el fr this, where rnd = rnd]
    have "drawHistory (ticks i g rnd (startDraw s)) = drawHistory (startDraw s)" by (rule conjunct2)
    then show "drawHistory (ticks i g rnd (startDraw s)) = drawHistory s" by (simp only: h0)
  qed
  from h' len w c d t mid show ?thesis by (intro exI[of _ w] conjI)
qed

text \<open>
  Claim C5 on two participants, the first of whom is removed from the list while the
  draw runs: the history gains that participant, a member of the eligible set of the
  start, although the list no longer has it.
\<close>

lemma reveal_example_participants: "participants (ticks steps (\<lambda>i. removeParticipant [1]) (\<lambda>i. (i, 0)) (startDraw (initial\<lparr>participants := [\<lparr>ident = [1], name = [0x41]\<rparr>, \<lparr>ident = [2], name = [0x42]\<rparr>]\<rparr>))) = [\<lparr>ident = [2], name = [0x42]\<rparr>]"
  by (simp add: steps_eq eval_nat_numeral timer_tick_def startDraw_def availableParticipants_def initial_def removeParticipant_def Let_def)

lemma reveal_example_history: "drawHistory (ticks steps (\<lambda>i. removeParticipant [1]) (\<lambda>i. (i, 0)) (startDraw (initial\<lparr>participants := [\<lparr>ident = [1], name = [0x41]\<rparr>, \<lparr>ident = [2], name = [0x42]\<rparr>]\<rparr>))) = [\<lparr>ident = [1], name = [0x41]\<rparr>]"
  by (simp add: steps_eq eval_nat_numeral timer_tick_def startDraw_def availableParticipants_def initial_def removeParticipant_def Let_def)

theorem startDraw_completes_witness:
  "(let a = \<lparr>ident = [1], name = [0x41]\<rparr>; b = \<lparr>ident = [2], name = [0x42]\<rparr>;
        s = initial\<lparr>participants := [a, b]\<rparr>;
        g = (\<lambda>i. removeParticipant [1]);
        rnd = (\<lambda>i. (i, 0))
    in availableParticipants s \<noteq> [] \<and> timers s = [] \<and>
       (\<forall>i st. timers (g i st) = timers st \<and> drawHistory (g i st) = drawHistory st) \<and>
       (\<exists>w. drawHistory (ticks steps g rnd (startDraw s)) = w # drawHistory s \<and>
            w \<in> set (availableParticipants s)) \<and>
       drawHistory (ticks steps g rnd (startDraw s)) = [a] \<and>
       participants (ticks steps g rnd (startDraw s)) = [b])"
proof -
  let ?a = "\<lparr>ident = [1::16 word], name = [0x41::16 word]\<rparr>"
  let ?b = "\<lparr>ident = [2::16 word], name = [0x42::16 word]\<rparr>"
  let ?s = "initial\<lparr>participants := [?a, ?b]\<rparr>"
  let ?g = "(\<lambda>i. removeParticipant [1]) :: nat \<Rightarrow> state \<Rightarrow> state"
  let ?rnd = "(\<lambda>i. (i, 0)) :: nat \<Rightarrow> nat \<times> nat"
  have av: "availableParticipants ?s = [?a, ?b]"
    by (simp add: availableParticipants_def initial_def)
  have h1: "availableParticipants ?s \<noteq> []" by (simp add: av)
  have h2: "timers ?s = []" by (simp add: initial_def)
  have h3: "\<forall>i st. timers (?g i st) = timers st \<and> drawHistory (?g i st) = drawHistory st"
    by (simp add: removeParticipant_def)
  from startDraw_completes[where s = ?s and g = ?g and rnd = ?rnd, OF h1 h2 h3]
  obtain w where w: "drawHistory (ticks steps ?g ?rnd (startDraw ?s)) = w # drawHistory ?s"
    "w \<in> set (availableParticipants ?s)" by (elim exE conjE)
  have ps: "participants (ticks steps ?g ?rnd (startDraw ?s)) = [?b]"
    by (rule reveal_example_participants)
  have dh: "drawHistory (ticks steps ?g ?rnd (startDraw ?s)) = [?a]"
    by (rule reveal_example_history)
  from h1 h2 h3 w ps dh show ?thesis unfolding Let_def by (intro conjI exI[of _ w])
qed

subsection \<open>One timed reveal at a time\<close>

lemma handleGrouping_timers:
  "handleGrouping srt s = Some s' \<Longrightarrow> timers s' = timers s \<and> isDrawing s' = isDrawing s"
  by (auto simp: handleGrouping_def split: if_splits)

lemma timer_tick_inv: "draw_inv s \<Longrightarrow> draw_inv (timer_tick k r1 r2 s)"
proof -
  assume inv: "draw_inv s"
  show ?thesis
  proof (cases "timers s")
    case Nil
    then show ?thesis using inv by (simp add: timer_tick_def)
  next
    case (Cons t ts)
    with inv have ts: "ts = []" and d: "isDrawing s" and c: "captured t \<noteq> []"
      by (simp_all add: draw_inv_def)
    show ?thesis
    proof (cases k)
      case 0
      then show ?thesis using Cons ts d c
        by (simp add: timer_tick_def Let_def draw_inv_def)
    next
      case (Suc k')
      then show ?thesis using Cons ts inv by (simp add: timer_tick_def)
    qed
  qed
qed

lemma startDraw_inv:
  "draw_inv s \<Longrightarrow> \<not> isDrawing s \<Longrightarrow> draw_inv (startDraw s)"
  by (simp add: draw_inv_def startDraw_def)

lemma fire_inv:
  assumes "draw_inv s" "fire e s = Some s'"
  shows "draw_inv s'"
proof (cases e)
  case ClickDraw
  then show ?thesis using assms startDraw_inv[of s] by (auto split: if_splits)
next
  case (TimerTick k r1 r2)
  then show ?thesis using assms timer_tick_inv by auto
next
  case (ClickGenerate srt)
  then show ?thesis using assms handleGrouping_timers[of srt s s']
    by (auto simp: draw_inv_def split: if_splits)
qed (use assms in \<open>auto simp: draw_inv_def handleAddFromText_def handleFileUpload_complete_def Let_def
      deduplicate_def clearParticipants_def removeParticipant_def clearHistory_def groupSize_onChange_def
      split: if_splits\<close>)

lemma run_inv: "draw_inv s \<Longrightarrow> run es s = Some s' \<Longrightarrow> draw_inv s'"
proof (induction es arbitrary: s)
  case Nil
  then show ?case by simp
next
  case (Cons e es)
  then show ?case by (auto split: option.splits dest: fire_inv)
qed

lemma initial_inv: "draw_inv initial"
  by (simp add: draw_inv_def initial_def)


text \<open>
  Claim C3. \<^verbatim>\<open>startDraw\<close> is reached only through the draw button, which is disabled
  while a draw is in progress. Starting a draw then is a no-op: the history, the
  displayed winner, the in-progress flag and all other state stay as they are. So in
  every state that a sequence of events reaches from the initial state at most one
  timer is scheduled, and one is scheduled exactly while \<^verbatim>\<open>isDrawing\<close> holds.
\<close>

theorem draw_button_disabled_while_drawing:
  "(isDrawing s \<longrightarrow> fire ClickDraw s = Some s) \<and>
   (run es initial = Some s' \<longrightarrow> length (timers s') \<le> 1 \<and> (isDrawing s' \<longleftrightarrow> timers s' \<noteq> []))"
proof (intro conjI impI)
  assume "isDrawing s"
  then show "fire ClickDraw s = Some s" by simp
next
  assume r: "run es initial = Some s'"
  from run_inv[OF initial_inv r] show "length (timers s') \<le> 1" by (simp add: draw_inv_def)
next
  assume r: "run es initial = Some s'"
  from run_inv[OF initial_inv r] show "isDrawing s' = (timers s' \<noteq> [])" by (simp add: draw_inv_def)
qed


text \<open>
  Claim C3 on the state reached by adding one participant, starting a draw,
  one tick and a second click on the draw button.
\<close>

theorem draw_button_disabled_while_drawing_witness:
  "(let a = \<lparr>ident = [1], name = [0x41]\<rparr>;
        es = [SetInputText [0x41], ClickAdd (\<lambda>i. [1]), ClickDraw, TimerTick 0 7 3, ClickDraw];
        s = initial\<lparr>participants := [a], isDrawing := True, currentWinner := Some a,
              timers := [\<lparr>counter = 1, captured = [a]\<rparr>]\<rparr>
    in isDrawing s \<and> fire ClickDraw s = Some s \<and> run es initial = Some s \<and>
       length (timers s) \<le> 1 \<and> isDrawing s = (timers s \<noteq> []))"
proof -
  let ?a = "\<lparr>ident = [1::16 word], name = [0x41::16 word]\<rparr>"
  let ?es = "[SetInputText [0x41], ClickAdd (\<lambda>i. [1]), ClickDraw, TimerTick 0 7 3, ClickDraw]"
  let ?s = "initial\<lparr>participants := [?a], isDrawing := True, currentWinner := Some ?a,
              timers := [\<lparr>counter = 1, captured = [?a]\<rparr>]\<rparr>"
  have d: "isDrawing ?s" by simp
  have r: "run ?es initial = Some ?s"
    by (simp add: initial_def handleAddFromText_def new_participants_def trim_def isWhiteSpace_def
        startDraw_def availableParticipants_def timer_tick_def steps_def Let_def)
  from draw_button_disabled_while_drawing[of ?s ?es ?s] d r
  show ?thesis unfolding Let_def by simp
qed

subsection \<open>Clearing\<close>

text \<open>
  Claim C10. Clearing the history empties the draw history and changes no other part of
  the state: the result is the old state with only \<open>drawHistory\<close> replaced, so the
  participant list, the groups, the displayed winner, the in-progress flag, the repeat
  policy and the timers are the old ones.
\<close>

theorem clearHistory_frame:
  "clearHistory s = s\<lparr>drawHistory := []\<rparr> \<and>
   drawHistory (clearHistory s) = [] \<and>
   participants (clearHistory s) = participants s \<and>
   groups (clearHistory s) = groups s \<and>
   currentWinner (clearHistory s) = currentWinner s \<and>
   isDrawing (clearHistory s) = isDrawing s \<and>
   allowRepeat (clearHistory s) = allowRepeat s \<and>
   timers (clearHistory s) = timers s"
  by (simp add: clearHistory_def)

text \<open>
  Claim C9. In every state, whatever draws and groups exist, \<open>clearParticipants\<close> leaves
  the participant list, the draw history and the group set empty.
\<close>

theorem clearParticipants_empties_all:
  "participants (clearParticipants s) = [] \<and> drawHistory (clearParticipants s) = [] \<and>
   groups (clearParticipants s) = []"
  by (simp add: clearParticipants_def)

section \<open>Properties of the grouping engine\<close>

subsection \<open>The chunking loop\<close>

lemma js_slice_chunk:
  assumes k: "k < length a" and n: "0 < n"
  shows "js_slice a (int k) (int k + int n) = take n (drop k a)"
proof (cases "k + n \<le> length a")
  case True
  then have "min (int k + int n) (int (length a)) = int k + int n" by simp
  moreover have "min (int k) (int (length a)) = int k" using k by simp
  ultimately show ?thesis by (simp add: js_slice_def Let_def)
next
  case False
  then have "min (int k + int n) (int (length a)) = int (length a)" by simp
  moreover have "min (int k) (int (length a)) = int k" using k by simp
  moreover have "nat (int (length a) - int k) = length a - k" by simp
  ultimately have "js_slice a (int k) (int k + int n) = take (length a - k) (drop k a)"
    by (simp add: js_slice_def Let_def)
  also have "\<dots> = drop k a" by simp
  also have "\<dots> = take n (drop k a)" using False by simp
  finally show ?thesis .
qed


lemma grouping_loop_diverges:
  assumes "gsize \<le> 0" "i < int (length xs)"
  shows "grouping_loop xs gsize i acc = None"
proof (cases "grouping_loop xs gsize i acc")
  case None then show ?thesis .
next
  case (Some y)
  have "\<not> (gsize \<le> 0 \<and> i < int (length xs))"
  proof (rule grouping_loop.raw_induct[where P = "\<lambda>xs g i acc y. \<not> (g \<le> 0 \<and> i < int (length xs))", OF _ Some])
    fix loop :: "participant list \<Rightarrow> int \<Rightarrow> int \<Rightarrow> participant list list \<Rightarrow> participant list list option"
    fix xs g i acc y
    assume IH: "\<And>xs g i acc y. loop xs g i acc = Some y \<Longrightarrow> \<not> (g \<le> 0 \<and> i < int (length xs))"
    assume step: "(if i < int (length xs)
      then loop xs g (i + g) (acc @ [js_slice xs i (i + g)])
      else Some acc) = Some y"
    show "\<not> (g \<le> 0 \<and> i < int (length xs))"
    proof
      assume a: "g \<le> 0 \<and> i < int (length xs)"
      with step have "loop xs g (i + g) (acc @ [js_slice xs i (i + g)]) = Some y" by simp
      from IH[OF this] a show False by simp
    qed
  qed
  with assms show ?thesis by simp
qed

lemma grouping_loop_chunks:
  assumes n: "0 < n"
  shows "\<exists>gs. grouping_loop xs (int n) (int k) acc = Some (acc @ gs) \<and>
           concat gs = drop k xs \<and> (\<forall>g \<in> set gs. g \<noteq> [] \<and> length g \<le> n) \<and>
           (\<forall>g \<in> set (butlast gs). length g = n)"
proof (induction "length xs - k" arbitrary: k acc rule: less_induct)
  case less
  show ?case
  proof (cases "k < length xs")
    case False
    then have "grouping_loop xs (int n) (int k) acc = Some acc"
      by (subst grouping_loop.simps) simp
    with False show ?thesis by simp
  next
    case True
    let ?g = "take n (drop k xs)"
    have sl: "js_slice xs (int k) (int k + int n) = ?g"
      using True n by (rule js_slice_chunk)
    have "length xs - (k + n) < length xs - k" using True n by simp
    from less[OF this, of "acc @ [?g]"]
    obtain gs where gs1: "grouping_loop xs (int n) (int (k + n)) (acc @ [?g]) = Some ((acc @ [?g]) @ gs)"
      and gs2: "concat gs = drop (k + n) xs"
      and gs3: "\<forall>g \<in> set gs. g \<noteq> [] \<and> length g \<le> n"
      and gs4: "\<forall>g \<in> set (butlast gs). length g = n" by blast
    have "grouping_loop xs (int n) (int k) acc =
        grouping_loop xs (int n) (int k + int n) (acc @ [js_slice xs (int k) (int k + int n)])"
      using True by (subst grouping_loop.simps) simp
    also have "\<dots> = grouping_loop xs (int n) (int (k + n)) (acc @ [?g])"
      by (simp only: sl of_nat_add)
    also have "\<dots> = Some (acc @ (?g # gs))" using gs1 by simp
    finally have step: "grouping_loop xs (int n) (int k) acc = Some (acc @ (?g # gs))" .
    have "?g @ drop n (drop k xs) = drop k xs" by (rule append_take_drop_id)
    then have "?g @ drop (k + n) xs = drop k xs" by (simp add: add.commute)
    with gs2 have c: "concat (?g # gs) = drop k xs" by simp
    have ne: "?g \<noteq> []" using True n by simp
    have le: "length ?g \<le> n" by simp
    have full: "length ?g = n" if "gs \<noteq> []"
    proof -
      from that obtain g where g: "g \<in> set gs" by (cases gs) auto
      with gs3 have "g \<noteq> []" by blast
      with g have "concat gs \<noteq> []" by auto
      with gs2 have "k + n < length xs" by simp
      then show ?thesis by simp
    qed
    have b: "\<forall>g \<in> set (butlast (?g # gs)). length g = n"
    proof (cases "gs = []")
      case True then show ?thesis by simp
    next
      case False
      with full gs4 show ?thesis by simp
    qed
    have a: "\<forall>g \<in> set (?g # gs). g \<noteq> [] \<and> length g \<le> n"
      using gs3 ne le by simp
    from step c a b show ?thesis by blast
  qed
qed

lemma insert_random_mset:
  "insert_random pos k e xs = (r, k') \<Longrightarrow> mset r = add_mset e (mset xs)"
  by (induction xs arbitrary: k r k') (auto split: if_splits prod.splits)

lemma isort_random_mset: "mset (isort_random pos k d xs) = mset d + mset xs"
  by (induction xs arbitrary: k d) (auto split: prod.splits dest: insert_random_mset)

lemma sort_random_mset: "mset (sort_random pos a) = mset a"
  by (simp add: sort_random_def isort_random_mset)

lemma handleGrouping_empty: "participants s = [] \<Longrightarrow> handleGrouping srt s = Some s"
  by (simp add: handleGrouping_def)

lemma handleGrouping_nonpositive:
  assumes "groupSize s \<le> 0" "participants s \<noteq> []" "srt (participants s) \<noteq> []"
  shows "handleGrouping srt s = None"
proof -
  have "grouping_loop (srt (participants s)) (groupSize s) 0 [] = None"
    using assms(1,3) by (intro grouping_loop_diverges) simp_all
  with assms(2) show ?thesis by (simp add: handleGrouping_def)
qed

subsection \<open>Groups of a valid size\<close>

text \<open>
  Claim C6. For a non-empty participant list, a group size of at least 1 and an engine
  sort that returns a rearrangement of its input, \<open>handleGrouping\<close> returns and replaces
  only the groups. The groups in order are the shuffled list, hence a permutation of
  the participant list; their lengths sum to the number of participants; every group
  but the last has exactly \<open>groupSize\<close> members, and every group has at least one and at
  most \<open>groupSize\<close>.
\<close>

theorem handleGrouping_partition:
  assumes ne: "participants s \<noteq> []" and sz: "1 \<le> groupSize s"
    and perm: "mset (srt (participants s)) = mset (participants s)"
  shows "\<exists>gs. handleGrouping srt s = Some (s\<lparr>groups := gs\<rparr>) \<and>
           concat gs = srt (participants s) \<and>
           mset (concat gs) = mset (participants s) \<and>
           sum_list (map length gs) = length (participants s) \<and>
           (\<forall>g \<in> set (butlast gs). int (length g) = groupSize s) \<and>
           (\<forall>g \<in> set gs. g \<noteq> [] \<and> int (length g) \<le> groupSize s)"
proof -
  define n where "n = nat (groupSize s)"
  have n: "0 < n" and gn: "groupSize s = int n" using sz by (simp_all add: n_def)
  from grouping_loop_chunks[OF n, of "srt (participants s)" 0 "[]"]
  obtain gs where l: "grouping_loop (srt (participants s)) (int n) 0 [] = Some gs"
    and c: "concat gs = srt (participants s)"
    and a: "\<forall>g \<in> set gs. g \<noteq> [] \<and> length g \<le> n"
    and b: "\<forall>g \<in> set (butlast gs). length g = n" by auto
  have h: "handleGrouping srt s = Some (s\<lparr>groups := gs\<rparr>)"
    using ne l by (simp add: handleGrouping_def gn)
  have m: "mset (concat gs) = mset (participants s)" using c perm by simp
  have "sum_list (map length gs) = length (concat gs)" by (simp add: length_concat)
  also have "\<dots> = length (participants s)" using m by (rule mset_eq_length)
  finally have su: "sum_list (map length gs) = length (participants s)" .
  from h c m su a b show ?thesis unfolding gn by auto
qed


text \<open>
  Claim C6 on five participants and group size 2, with an insertion sort whose
  comparator is always positive: the groups have the sizes 2, 2 and 1.
\<close>

theorem handleGrouping_partition_witness:
  "(let s = initial\<lparr>participants :=
        [\<lparr>ident = [1], name = [0x41]\<rparr>, \<lparr>ident = [2], name = [0x42]\<rparr>, \<lparr>ident = [3], name = [0x43]\<rparr>,
         \<lparr>ident = [4], name = [0x44]\<rparr>, \<lparr>ident = [5], name = [0x45]\<rparr>], groupSize := 2\<rparr>;
        srt = sort_random (\<lambda>k. True)
    in participants s \<noteq> [] \<and> 1 \<le> groupSize s \<and>
       mset (srt (participants s)) = mset (participants s) \<and>
       handleGrouping srt s = Some (s\<lparr>groups :=
         [[\<lparr>ident = [5], name = [0x45]\<rparr>, \<lparr>ident = [4], name = [0x44]\<rparr>],
          [\<lparr>ident = [3], name = [0x43]\<rparr>, \<lparr>ident = [2], name = [0x42]\<rparr>],
          [\<lparr>ident = [1], name = [0x41]\<rparr>]]\<rparr>))"
proof -
  let ?ps = "[\<lparr>ident = [1], name = [0x41]\<rparr>, \<lparr>ident = [2], name = [0x42]\<rparr>, \<lparr>ident = [3], name = [0x43]\<rparr>,
         \<lparr>ident = [4], name = [0x44]\<rparr>, \<lparr>ident = [5::16 word], name = [0x45::16 word]\<rparr>]"
  let ?s = "initial\<lparr>participants := ?ps, groupSize := 2\<rparr>"
  let ?srt = "sort_random (\<lambda>k. True) :: participant list \<Rightarrow> participant list"
  have sh: "?srt ?ps = rev ?ps" by (simp add: sort_random_def)
  have h1: "participants ?s \<noteq> []" by simp
  have h2: "1 \<le> groupSize ?s" by simp
  have h3: "mset (?srt (participants ?s)) = mset (participants ?s)"
    by (simp add: sort_random_mset)
  from handleGrouping_partition[where s = ?s and srt = ?srt, OF h1 h2 h3]
  obtain gs where g: "handleGrouping ?srt ?s = Some (?s\<lparr>groups := gs\<rparr>)"
    and c: "concat gs = ?srt (participants ?s)"
    and b: "\<forall>g \<in> set (butlast gs). int (length g) = groupSize ?s"
    and a: "\<forall>g \<in> set gs. g \<noteq> [] \<and> int (length g) \<le> groupSize ?s" by blast
  have "handleGrouping ?srt ?s = Some (?s\<lparr>groups :=
         [[\<lparr>ident = [5], name = [0x45]\<rparr>, \<lparr>ident = [4], name = [0x44]\<rparr>],
          [\<lparr>ident = [3], name = [0x43]\<rparr>, \<lparr>ident = [2], name = [0x42]\<rparr>],
          [\<lparr>ident = [1], name = [0x41]\<rparr>]]\<rparr>)"
    by (simp add: handleGrouping_def sh grouping_loop.simps js_slice_def)
  with h1 h2 h3 show ?thesis unfolding Let_def by blast
qed


subsection \<open>A group size below 1\<close>

text \<open>
  Claim C2 asks that generating groups with a group size below 1 either changes nothing
  or reports an error. The input guard \<^verbatim>\<open>parseInt(e.target.value) || 1\<close> replaces \<open>0\<close>
  and \<^verbatim>\<open>NaN\<close> by 1 but lets a negative number through. After \<^verbatim>\<open>-1\<close> was typed into
  the group size field, \<open>handleGrouping\<close> on a list of one participant does not return:
  the loop index moves away from the length of the list. On an empty list the handler
  returns the state unchanged (\<open>handleGrouping_empty\<close>).
\<close>

theorem handleGrouping_negative_size_diverges:
  "handleGrouping (sort_random (\<lambda>k. False))
     (groupSize_onChange (Some (- 1)) (initial\<lparr>participants := [\<lparr>ident = [0x61], name = [0x41]\<rparr>]\<rparr>))
   = None"
  by (rule handleGrouping_nonpositive) (simp_all add: groupSize_onChange_def sort_random_def)

subsection \<open>The shuffle\<close>

text \<open>
  Take the signs of the comparator's results to be independent fair coin flips. A sort
  that calls the comparator at most \<open>h\<close> times sees one of \<open>2 ^ h\<close> equally likely sign
  sequences, so an ordering comes out with a probability that is a multiple of
  \<open>1 / 2 ^ h\<close>. For three participants that is never \<open>1 / 6\<close>, whatever the engine's
  algorithm \<open>srt\<close>: six times the number of sign sequences that give an ordering is not
  the number of all sign sequences.
\<close>

lemma pow2_mod3: "(2::nat) ^ h mod 3 \<noteq> 0"
proof (induction h)
  case 0 show ?case by simp
next
  case (Suc h)
  have "(2::nat) ^ Suc h mod 3 = (2 * (2 ^ h mod 3)) mod 3"
    by (simp add: mod_mult_right_eq)
  moreover have "(2::nat) ^ h mod 3 = 1 \<or> (2::nat) ^ h mod 3 = 2"
  proof -
    have "(2::nat) ^ h mod 3 < 3" by simp
    with Suc show ?thesis by linarith
  qed
  ultimately show ?case by (elim disjE) simp_all
qed

lemma pow2_not_mult3: "6 * (m::nat) \<noteq> 2 ^ h"
proof
  assume "6 * m = 2 ^ h"
  then have "(2::nat) ^ h mod 3 = (6 * m) mod 3" by simp
  also have "\<dots> = 0" by simp
  finally show False using pow2_mod3[of h] by simp
qed

lemma comparator_shuffle_not_uniform:
  "6 * length (filter (\<lambda>cs. srt (\<lambda>k. cs ! k) xs = ys) (List.n_lists h [False, True])) \<noteq>
   length (List.n_lists h [False, True])"
  unfolding length_n_lists using pow2_not_mult3[of _ h] by (simp add: numeral_2_eq_2)

lemma grouping_loop_single_group:
  "grouping_loop [x, y, z] 3 0 [] = Some [[x, y, z]]"
  by (simp add: grouping_loop.simps js_slice_def)

text \<open>
  Claim C1 asks for a uniformly random permutation. On three participants \<open>a\<close>, \<open>b\<close>,
  \<open>c\<close> with group size 3 (the single group is the shuffled list), the insertion sort
  makes at most three comparator calls; over the eight equally likely sign sequences
  the orderings \<open>a b c\<close> and \<open>b a c\<close> come out twice each and the other four once each.
\<close>

theorem handleGrouping_shuffle_biased:
  "(let a = \<lparr>ident = [1], name = [0x41]\<rparr>; b = \<lparr>ident = [2], name = [0x42]\<rparr>;
        c = \<lparr>ident = [3], name = [0x43]\<rparr>;
        s = initial\<lparr>participants := [a, b, c], groupSize := 3\<rparr>;
        outcome = (\<lambda>cs. map_option groups (handleGrouping (sort_random (\<lambda>k. cs ! k)) s))
    in map outcome (List.n_lists 3 [False, True]) =
         [Some [[a, b, c]], Some [[b, a, c]], Some [[a, c, b]], Some [[b, c, a]],
          Some [[a, b, c]], Some [[b, a, c]], Some [[c, a, b]], Some [[c, b, a]]])"
  by (simp add: Let_def List.n_lists.simps eval_nat_numeral handleGrouping_def sort_random_def
      grouping_loop_single_group)

end
